theory Spec2Isabelle
  imports Complex_Main "HOL-Library.Word" "HOL-Library.List_Lexorder" "HOL-Library.Signed_Division"
    "HOL-Library.Sublist"
begin

unbundle bit_operations_syntax

section \<open>The database package\<close>

text \<open>
  The store is a Bolt database with three buckets. The queue uses the bucket \<open>Queued\<close>,
  whose keys are the 8-byte big-endian encodings of the bucket's sequence number and whose
  values are torrent hashes. Keys and values are byte strings; hashes are kept as
  \<open>string\<close>.
\<close>

type_synonym bytes = "8 word list"

datatype db_error = ErrKeyNotValid | ErrValueNotValid | ErrNoSuchKey

record bucket =
  entries :: "(bytes \<times> string) list"
  sequence :: "64 word"

text \<open>
  Modelled from the spec: the Bolt library itself is not part of the sources. The store is
  "ordered/keyed durable storage with first-key pop semantics": a bucket keeps its pairs
  in ascending byte order of the keys (the order on \<open>bytes\<close> is the lexicographic one),
  \<open>Bucket.Put\<close> inserts a pair or replaces the value of an existing key.
\<close>

fun bolt_Put :: "bytes \<Rightarrow> string \<Rightarrow> (bytes \<times> string) list \<Rightarrow> (bytes \<times> string) list" where
  "bolt_Put k v [] = [(k, v)]"
| "bolt_Put k v ((k', v') # es) =
     (if k < k' then (k, v) # (k', v') # es
      else if k = k' then (k, v) # es
      else (k', v') # bolt_Put k v es)"

text \<open>
  Modelled from the spec: \<open>Bucket.Delete\<close> of the Bolt library (not part of the sources)
  removes the pair stored under a key, and does nothing when the key is absent.
\<close>

definition bolt_Delete :: "bytes \<Rightarrow> (bytes \<times> string) list \<Rightarrow> (bytes \<times> string) list" where
  "bolt_Delete k es = filter (\<lambda>e. fst e \<noteq> k) es"

text \<open>
  Modelled from the spec: \<open>Cursor.First\<close> of the Bolt library (not part of the sources)
  yields the pair with the least key, and nothing on an empty bucket.
\<close>

definition bolt_First :: "(bytes \<times> string) list \<Rightarrow> (bytes \<times> string) option" where
  "bolt_First es = (case es of [] \<Rightarrow> None | e # _ \<Rightarrow> Some e)"

text \<open>
  Modelled from the spec: \<open>Bucket.NextSequence\<close> of the Bolt library (not part of the
  sources) increments the bucket's unsigned 64-bit sequence number, the "auto-increment
  key", and returns the new value.
\<close>

definition bolt_NextSequence :: "bucket \<Rightarrow> 64 word \<times> bucket" where
  "bolt_NextSequence b = (sequence b + 1, b\<lparr>sequence := sequence b + 1\<rparr>)"

text \<open>\<open>itob\<close>: \<open>binary.BigEndian.PutUint64\<close> into a slice of eight bytes.\<close>

definition itob :: "64 word \<Rightarrow> bytes" where
  "itob v = [ucast (drop_bit 56 v), ucast (drop_bit 48 v), ucast (drop_bit 40 v),
             ucast (drop_bit 32 v), ucast (drop_bit 24 v), ucast (drop_bit 16 v),
             ucast (drop_bit 8 v), ucast v]"

text \<open>
  \<open>Put\<close> with the key \<open>AutoIncrement\<close> and a string value: the value is never nil, so
  \<open>ErrValueNotValid\<close> is not raised; the key is \<open>itob\<close> of the next sequence number.
\<close>

definition Put_AutoIncrement :: "string \<Rightarrow> bucket \<Rightarrow> bucket" where
  "Put_AutoIncrement val b =
     (case bolt_NextSequence b of
        (n, b') \<Rightarrow> b'\<lparr>entries := bolt_Put (itob n) val (entries b')\<rparr>)"

text \<open>
  \<open>Get\<close> with the key \<open>GetFirstKey\<close>: \<open>assertGetByKey\<close> takes the cursor's first pair
  and answers \<open>ErrNoSuchKey\<close> when there is none.
\<close>

definition Get_GetFirstKey :: "bucket \<Rightarrow> db_error + string" where
  "Get_GetFirstKey b =
     (case bolt_First (entries b) of None \<Rightarrow> Inl ErrNoSuchKey | Some (k, v) \<Rightarrow> Inr v)"

text \<open>\<open>Delete\<close> with the key \<open>GetFirstKey\<close>: deletes the key of the cursor's first pair.\<close>

definition Delete_GetFirstKey :: "bucket \<Rightarrow> db_error + bucket" where
  "Delete_GetFirstKey b =
     (case bolt_First (entries b) of
        None \<Rightarrow> Inl ErrNoSuchKey
      | Some (k, v) \<Rightarrow> Inr (b\<lparr>entries := bolt_Delete k (entries b)\<rparr>))"

section \<open>The queue package\<close>

text \<open>
  The state of the package: the bucket \<open>Queued\<close> of the store, the counter \<open>numActive\<close>
  local to \<open>Run\<close>, and the map \<open>activeHashes\<close>, of which only the key set matters.
  \<open>cNext_sent\<close> records the values handed over on the channel \<open>cNext\<close>, oldest first,
  each tagged with the branch of \<open>Run\<close> that sent it; it is the sequence of results of
  \<open>Next\<close>.

  \<open>numActive\<close> and \<open>maxActive\<close> are Go \<open>int\<close>s (64 bits); the counter moves by one per
  signal, so it is kept as an unbounded integer.

  The package is described twice. In the first description (\<open>step\<close>, \<open>Run\<close>) every
  operation runs uninterrupted: a value sent on \<open>cNext\<close> is stored in \<open>activeHashes\<close>
  by \<open>Next\<close> in the same step, and a call of \<open>Done\<close> is one step from its test to its
  delete, with the iteration of \<open>Run\<close> that its signal wakes. This is the package as seen
  before and after whole calls. In the second description (\<open>move_step\<close>, \<open>Run_moves\<close>)
  a call of \<open>Done\<close> is in two moves, signal and delete, between which other goroutines
  go on; it has the states in which \<open>Run\<close> has already handed over the next hash while
  the done hash is still in \<open>activeHashes\<close>.
\<close>

datatype admission = Forced | Polled

record queue =
  Queued :: bucket
  numActive :: int
  activeHashes :: "string set"
  cNext_sent :: "(admission \<times> string) list"

text \<open>
  \<open>Add\<close> returns the error of \<open>Put\<close>. With the key \<open>AutoIncrement\<close> and a string
  value \<open>Put\<close> raises neither \<open>ErrValueNotValid\<close> nor \<open>ErrKeyNotValid\<close>; a failure
  of the store itself is outside the model, so \<open>Add\<close> is its effect on the bucket.
\<close>

definition Add :: "string \<Rightarrow> queue \<Rightarrow> queue" where
  "Add hash q = q\<lparr>Queued := Put_AutoIncrement hash (Queued q)\<rparr>"

text \<open>
  \<open>Remove\<close> visits every pair of the bucket and deletes the key of each pair whose value is
  the hash.
\<close>

definition Remove :: "string \<Rightarrow> queue \<Rightarrow> queue" where
  "Remove hash q =
     q\<lparr>Queued := (Queued q)\<lparr>entries :=
          fold (\<lambda>(k, v) es. if v = hash then bolt_Delete k es else es)
               (entries (Queued q)) (entries (Queued q))\<rparr>\<rparr>"

text \<open>\<open>Next\<close>, together with the send on \<open>cNext\<close> that it receives.\<close>

definition Next :: "admission \<Rightarrow> string \<Rightarrow> queue \<Rightarrow> queue" where
  "Next a hash q =
     q\<lparr>activeHashes := insert hash (activeHashes q), cNext_sent := cNext_sent q @ [(a, hash)]\<rparr>"

text \<open>The branch \<open>case <-cDone\<close> of \<open>Run\<close>: decrement, with a floor of zero.\<close>

definition recv_cDone :: "queue \<Rightarrow> queue" where
  "recv_cDone q =
     (let n = numActive q - 1 in q\<lparr>numActive := (if n < 0 then 0 else n)\<rparr>)"

text \<open>
  \<open>Done\<close> for a hash held in \<open>activeHashes\<close>: the signal on \<open>cDone\<close>, received by \<open>Run\<close>,
  and the deletion of the hash. For any other hash \<open>Done\<close> does nothing.
\<close>

definition Done :: "string \<Rightarrow> queue \<Rightarrow> queue" where
  "Done hash q =
     (if hash \<in> activeHashes q
      then (recv_cDone q)\<lparr>activeHashes := activeHashes q - {hash}\<rparr>
      else q)"

text \<open>The branch \<open>case hash := <-cForce\<close> of \<open>Run\<close>.\<close>

definition recv_cForce :: "string \<Rightarrow> queue \<Rightarrow> queue" where
  "recv_cForce hash q = Next Forced hash (Remove hash (q\<lparr>numActive := numActive q + 1\<rparr>))"

text \<open>
  The end of every iteration of \<open>Run\<close>: below \<open>maxActive\<close>, the first pair of the bucket,
  if there is one, is counted, sent on \<open>cNext\<close> and deleted.
\<close>

definition admit :: "int \<Rightarrow> queue \<Rightarrow> queue" where
  "admit maxActive q =
     (if numActive q < maxActive
      then (case Get_GetFirstKey (Queued q) of
              Inl err \<Rightarrow> q
            | Inr buf \<Rightarrow>
                (let q' = Next Polled buf (q\<lparr>numActive := numActive q + 1\<rparr>)
                 in case Delete_GetFirstKey (Queued q') of
                      Inl err \<Rightarrow> q'
                    | Inr b \<Rightarrow> q'\<lparr>Queued := b\<rparr>))
      else q)"

text \<open>
  The operations on the package as events. \<open>Tick\<close> is an iteration of \<open>Run\<close> woken by
  its ticker; \<open>CallForceNext\<close> and \<open>CallDone\<close> include the iteration of \<open>Run\<close> that their
  signal wakes (a \<open>Done\<close> of a hash that is not active sends no signal).
\<close>

datatype event =
    CallAdd string
  | CallRemove string
  | CallForceNext string
  | CallDone string
  | Tick

fun step :: "int \<Rightarrow> event \<Rightarrow> queue \<Rightarrow> queue" where
  "step maxActive (CallAdd hash) q = Add hash q"
| "step maxActive (CallRemove hash) q = Remove hash q"
| "step maxActive (CallForceNext hash) q = admit maxActive (recv_cForce hash q)"
| "step maxActive (CallDone hash) q =
     (if hash \<in> activeHashes q then admit maxActive (Done hash q) else q)"
| "step maxActive Tick q = admit maxActive q"

text \<open>
  \<open>Run\<close> never returns. \<open>Run maxActive es q\<close> is the state of the package after the
  events \<open>es\<close>, in this order, while \<open>Run(maxActive)\<close> is looping; the states that can be
  reached are the states after some sequence of events.
\<close>

fun Run :: "int \<Rightarrow> event list \<Rightarrow> queue \<Rightarrow> queue" where
  "Run maxActive [] q = q"
| "Run maxActive (e # es) q = Run maxActive es (step maxActive e q)"

text \<open>A process starts with the bucket it finds in the store, no active hash and counter 0.\<close>

definition start :: "bucket \<Rightarrow> queue" where
  "start b = \<lparr>Queued = b, numActive = 0, activeHashes = {}, cNext_sent = []\<rparr>"

definition empty_bucket :: bucket where
  "empty_bucket = \<lparr>entries = [], sequence = 0\<rparr>"

fun is_force :: "event \<Rightarrow> bool" where
  "is_force (CallForceNext hash) = True"
| "is_force e = False"

fun is_remove :: "event \<Rightarrow> bool" where
  "is_remove (CallRemove hash) = True"
| "is_remove e = False"

fun added :: "event list \<Rightarrow> string list" where
  "added [] = []"
| "added (CallAdd hash # es) = hash # added es"
| "added (e # es) = added es"

definition queued_hashes :: "queue \<Rightarrow> string list" where
  "queued_hashes q = map snd (entries (Queued q))"

text \<open>
  The same package with a call of \<open>Done\<close> in two moves, as the source has it: the hash is
  deleted from \<open>activeHashes\<close> after the send on \<open>cDone\<close>, and \<open>Run\<close> goes on as soon as
  it has received. \<open>Done_send\<close> is the test \<open>activeHashes.Load\<close> and the send, together with
  the iteration of \<open>Run\<close> that receives the signal: the decrement and the admission check,
  whose pop is stored by \<open>Next\<close>. \<open>Done_delete\<close> is the \<open>activeHashes.Delete\<close> of a call
  that has sent its signal. \<open>deleting\<close> lists the hashes of the calls of \<open>Done\<close> that have
  sent and not yet deleted, one entry per call. \<open>Whole e\<close> is an operation that runs
  uninterrupted, as in \<open>step\<close>; \<open>Whole (CallDone hash)\<close> is a call of \<open>Done\<close> whose
  delete comes before the pop is stored.

  The test and the send of \<open>Done\<close> are one move: a call whose test succeeds blocks until
  \<open>Run\<close> receives, and in between only another call of \<open>Done\<close> for the same hash could
  delete the hash. The store of \<open>Next\<close> is one move with the hand-over on \<open>cNext\<close>:
  before the store the map holds one hash fewer, so an upper bound on the hashes in the map
  that holds in the states of this description holds in between as well.
\<close>

datatype move = Whole event | Done_send string | Done_delete string

record interleaved =
  pkg :: queue
  deleting :: "string list"

fun move_step :: "int \<Rightarrow> move \<Rightarrow> interleaved \<Rightarrow> interleaved" where
  "move_step maxActive (Whole e) s = s\<lparr>pkg := step maxActive e (pkg s)\<rparr>"
| "move_step maxActive (Done_send hash) s =
     (if hash \<in> activeHashes (pkg s)
      then s\<lparr>pkg := admit maxActive (recv_cDone (pkg s)), deleting := deleting s @ [hash]\<rparr>
      else s)"
| "move_step maxActive (Done_delete hash) s =
     (if hash \<in> set (deleting s)
      then s\<lparr>pkg := (pkg s)\<lparr>activeHashes := activeHashes (pkg s) - {hash}\<rparr>,
             deleting := remove1 hash (deleting s)\<rparr>
      else s)"

fun Run_moves :: "int \<Rightarrow> move list \<Rightarrow> interleaved \<Rightarrow> interleaved" where
  "Run_moves maxActive [] s = s"
| "Run_moves maxActive (m # ms) s = Run_moves maxActive ms (move_step maxActive m s)"

definition start_moves :: "bucket \<Rightarrow> interleaved" where
  "start_moves b = \<lparr>pkg = start b, deleting = []\<rparr>"

fun is_force_move :: "move \<Rightarrow> bool" where
  "is_force_move (Whole e) = is_force e"
| "is_force_move m = False"

text \<open>Whether a move sends a signal on \<open>cDone\<close>, and the hash of the \<open>Done\<close> it starts.\<close>

fun signals :: "move \<Rightarrow> interleaved \<Rightarrow> bool" where
  "signals (Whole (CallDone hash)) s = (hash \<in> activeHashes (pkg s))"
| "signals (Done_send hash) s = (hash \<in> activeHashes (pkg s))"
| "signals m s = False"

fun Done_of :: "move \<Rightarrow> string option" where
  "Done_of (Whole (CallDone hash)) = Some hash"
| "Done_of (Done_send hash) = Some hash"
| "Done_of m = None"

section \<open>Torrent records and progress\<close>

text \<open>
  \<open>Status\<close> is a string type with six constants; only these are ever written to the
  store. The \<open>int64\<close> fields are 64-bit words read as two's complement by \<open>sint\<close>.
\<close>

datatype Status =
    StatusActive | StatusQueued | StatusStopped | StatusPending | StatusDone | StatusSeeding

record TorrentInfo =
  Hash :: string
  Name :: string
  TimeAdded :: "64 word"
  TotalBytes :: "64 word"
  Status :: Status
  Magnet :: string
  LabelID :: string

text \<open>
  \<open>Ratio\<close> and the global ratio are \<open>float64\<close>. They are kept as real numbers and the
  quotient of \<open>Update\<close> is the exact one: the conversion of an \<open>int64\<close> and the rounded
  division both keep the sign, and the targets 0 and -1 are floating-point numbers, so a
  comparison of a ratio with one of these targets has the same outcome. What depends on a
  comparison with another global ratio is stated over \<open>Update_rounded\<close> and
  \<open>tick_rounded\<close>, where the quotient is left open.
\<close>

record TorrentProgress =
  tp_Hash :: string
  BytesCompleted :: "64 word"
  BytesUploaded :: "64 word"
  BpsUp :: "64 word"
  BpsDown :: "64 word"
  ActivePeers :: int
  TotalPeers :: int
  Ratio :: real

text \<open>
  What \<open>Update\<close> reads from the torrent client for one torrent: \<open>t.Stats().ConnStats.BytesWritten\<close>,
  \<open>t.BytesCompleted()\<close>, \<open>t.Stats().ActivePeers\<close> and \<open>t.Stats().TotalPeers\<close>.
\<close>

record torrent =
  BytesWritten :: "64 word"
  t_BytesCompleted :: "64 word"
  t_ActivePeers :: int
  t_TotalPeers :: int

text \<open>Division of an \<open>int64\<close> by 2, truncating towards zero as Go does.\<close>

definition half :: "64 word \<Rightarrow> 64 word" where
  "half x = word_of_int (sint x sdiv 2)"

definition Reset :: "TorrentProgress \<Rightarrow> TorrentProgress" where
  "Reset tp = tp\<lparr>BpsUp := 0, BpsDown := 0, ActivePeers := 0, TotalPeers := 0\<rparr>"

definition Update :: "torrent \<Rightarrow> TorrentProgress \<Rightarrow> TorrentProgress" where
  "Update t tp =
     (let tp1 = tp\<lparr>BpsUp := half (BpsUp tp + (BytesWritten t - BytesUploaded tp))\<rparr>;
          tp2 = tp1\<lparr>BytesUploaded := BytesWritten t\<rparr>;
          tp3 = tp2\<lparr>BpsDown := half (BpsDown tp2 + (t_BytesCompleted t - BytesCompleted tp2))\<rparr>;
          tp4 = tp3\<lparr>BytesCompleted := t_BytesCompleted t\<rparr>;
          tp5 = tp4\<lparr>ActivePeers := t_ActivePeers t, TotalPeers := t_TotalPeers t\<rparr>
      in if BytesCompleted tp5 = 0
         then tp5\<lparr>Ratio := 0\<rparr>
         else tp5\<lparr>Ratio := real_of_int (sint (BytesUploaded tp5))
                               / real_of_int (sint (BytesCompleted tp5))\<rparr>)"

text \<open>
  The division in \<open>Update\<close> is a division of \<open>float64\<close> values and rounds its result, as
  do the conversions of the two byte counts. \<open>Update_rounded quot\<close> is \<open>Update\<close> with the
  quotient left open: \<open>quot a b\<close> stands for \<open>float64(a) / float64(b)\<close>, and nothing is
  assumed about it. \<open>Update\<close> above is the instance with the exact quotient; rounding
  keeps the sign of the quotient, so the two agree wherever the ratio is compared with 0 or
  with -1.
\<close>

definition Update_rounded ::
  "(int \<Rightarrow> int \<Rightarrow> real) \<Rightarrow> torrent \<Rightarrow> TorrentProgress \<Rightarrow> TorrentProgress" where
  "Update_rounded quot t tp =
     (let tp1 = tp\<lparr>BpsUp := half (BpsUp tp + (BytesWritten t - BytesUploaded tp))\<rparr>;
          tp2 = tp1\<lparr>BytesUploaded := BytesWritten t\<rparr>;
          tp3 = tp2\<lparr>BpsDown := half (BpsDown tp2 + (t_BytesCompleted t - BytesCompleted tp2))\<rparr>;
          tp4 = tp3\<lparr>BytesCompleted := t_BytesCompleted t\<rparr>;
          tp5 = tp4\<lparr>ActivePeers := t_ActivePeers t, TotalPeers := t_TotalPeers t\<rparr>
      in if BytesCompleted tp5 = 0
         then tp5\<lparr>Ratio := 0\<rparr>
         else tp5\<lparr>Ratio := quot (sint (BytesUploaded tp5)) (sint (BytesCompleted tp5))\<rparr>)"

section \<open>The loop of startTorrent\<close>

text \<open>
  The state shared by all goroutines: the queue package and the bucket \<open>Torrents\<close>, read
  through \<open>GetTorrentInfo\<close> (a missing key or a value that does not decode is an error:
  \<open>None\<close>) and written through \<open>SaveAndBroadcast\<close>. The state of one call of
  \<open>startTorrent\<close> is its \<open>info\<close> and its \<open>progress\<close>.
\<close>

record system =
  queue_of :: queue
  Torrents :: "string \<rightharpoonup> TorrentInfo"

record worker =
  info :: TorrentInfo
  progress :: TorrentProgress

datatype control = Continue | Break

text \<open>
  One pass through the loop body after the ticker fired. \<open>cl\<close> is the result of
  \<open>client.Torrent\<close>: \<open>None\<close> when the client no longer holds the torrent. The wait for
  the torrent's metadata is over when the pass goes on. The block that moves the data of a
  done torrent to its label's directory only logs and touches the file system; it changes
  neither \<open>info\<close> nor the flow of control and is left out. The call \<open>queue.Done(hash)\<close>
  is the event \<open>CallDone\<close> of the queue. \<open>SaveAndBroadcast\<close> stores \<open>info\<close> under its
  own \<open>Hash\<close>.
\<close>

definition tick ::
  "real \<Rightarrow> int \<Rightarrow> string \<Rightarrow> torrent option \<Rightarrow> worker \<times> system \<Rightarrow> (worker \<times> system) \<times> control" where
  "tick globalRatio maxActive hash cl ws =
     (case ws of (w, sys) \<Rightarrow>
      (case cl of
         None \<Rightarrow> ((w, sys), Break)
       | Some t \<Rightarrow>
           (let p = Update t (progress w) in
            case Torrents sys hash of
              None \<Rightarrow> ((w\<lparr>progress := p\<rparr>, sys), Break)
            | Some latest \<Rightarrow>
                (let i1 = (if Status latest = StatusQueued
                           then latest\<lparr>Status := StatusActive\<rparr> else latest);
                     i2 = (if Status i1 = StatusActive
                              \<and> sint (TotalBytes i1) \<le> sint (BytesCompleted p)
                           then i1\<lparr>Status := StatusDone\<rparr> else i1);
                     i3 = (if Status i2 = StatusDone
                              \<and> globalRatio \<noteq> - 1 \<and> Ratio p < globalRatio
                           then i2\<lparr>Status := StatusSeeding\<rparr> else i2);
                     q' = (if Status i2 = StatusDone
                           then step maxActive (CallDone hash) (queue_of sys)
                           else queue_of sys);
                     i4 = (if Status i3 = StatusSeeding \<and> globalRatio \<le> Ratio p
                           then i3\<lparr>Status := StatusDone\<rparr> else i3);
                     sys' = sys\<lparr>queue_of := q', Torrents := (Torrents sys)(Hash i4 \<mapsto> i4)\<rparr>
                 in ((\<lparr>info = i4, progress = p\<rparr>, sys'),
                     if Status i4 = StatusDone then Break else Continue)))))"

text \<open>
  The same pass with the rounded quotient of \<open>Update_rounded\<close>; \<open>tick\<close> is the instance
  with the exact quotient. \<open>globalRatio\<close> is the value of the flag \<open>-ratio\<close>, a finite
  \<open>float64\<close>.
\<close>

definition tick_rounded ::
  "(int \<Rightarrow> int \<Rightarrow> real) \<Rightarrow> real \<Rightarrow> int \<Rightarrow> string \<Rightarrow> torrent option \<Rightarrow> worker \<times> system
     \<Rightarrow> (worker \<times> system) \<times> control" where
  "tick_rounded quot globalRatio maxActive hash cl ws =
     (case ws of (w, sys) \<Rightarrow>
      (case cl of
         None \<Rightarrow> ((w, sys), Break)
       | Some t \<Rightarrow>
           (let p = Update_rounded quot t (progress w) in
            case Torrents sys hash of
              None \<Rightarrow> ((w\<lparr>progress := p\<rparr>, sys), Break)
            | Some latest \<Rightarrow>
                (let i1 = (if Status latest = StatusQueued
                           then latest\<lparr>Status := StatusActive\<rparr> else latest);
                     i2 = (if Status i1 = StatusActive
                              \<and> sint (TotalBytes i1) \<le> sint (BytesCompleted p)
                           then i1\<lparr>Status := StatusDone\<rparr> else i1);
                     i3 = (if Status i2 = StatusDone
                              \<and> globalRatio \<noteq> - 1 \<and> Ratio p < globalRatio
                           then i2\<lparr>Status := StatusSeeding\<rparr> else i2);
                     q' = (if Status i2 = StatusDone
                           then step maxActive (CallDone hash) (queue_of sys)
                           else queue_of sys);
                     i4 = (if Status i3 = StatusSeeding \<and> globalRatio \<le> Ratio p
                           then i3\<lparr>Status := StatusDone\<rparr> else i3);
                     sys' = sys\<lparr>queue_of := q', Torrents := (Torrents sys)(Hash i4 \<mapsto> i4)\<rparr>
                 in ((\<lparr>info = i4, progress = p\<rparr>, sys'),
                     if Status i4 = StatusDone then Break else Continue)))))"

text \<open>
  After the loop (label \<open>close\<close>) and in the deferred function: the second call of
  \<open>queue.Done\<close> and the reset of the progress.
\<close>

definition close_worker :: "int \<Rightarrow> string \<Rightarrow> worker \<times> system \<Rightarrow> worker \<times> system" where
  "close_worker maxActive hash ws =
     (case ws of (w, sys) \<Rightarrow>
        (w\<lparr>progress := (if tp_Hash (progress w) \<noteq> [] then Reset (progress w) else progress w)\<rparr>,
         sys\<lparr>queue_of := step maxActive (CallDone hash) (queue_of sys)\<rparr>))"

text \<open>
  The loop over the signals that its \<open>select\<close> receives: a value on \<open>closeSignal\<close> or
  a tick. The result says whether \<open>startTorrent\<close> has returned; with no signal left it is
  still waiting in the \<open>select\<close>.
\<close>

datatype signal = closeSignal | ticker "torrent option"

fun startTorrent_loop ::
  "real \<Rightarrow> int \<Rightarrow> string \<Rightarrow> signal list \<Rightarrow> worker \<times> system \<Rightarrow> (worker \<times> system) \<times> bool" where
  "startTorrent_loop globalRatio maxActive hash [] ws = (ws, False)"
| "startTorrent_loop globalRatio maxActive hash (closeSignal # sigs) ws =
     (close_worker maxActive hash ws, True)"
| "startTorrent_loop globalRatio maxActive hash (ticker cl # sigs) ws =
     (case tick globalRatio maxActive hash cl ws of
        (ws', Break) \<Rightarrow> (close_worker maxActive hash ws', True)
      | (ws', Continue) \<Rightarrow> startTorrent_loop globalRatio maxActive hash sigs ws')"

text \<open>Big-endian bytes of the low \<open>n\<close> bytes of a word; \<open>itob\<close> is the case \<open>n = 8\<close>.\<close>

fun be_bytes :: "nat \<Rightarrow> 64 word \<Rightarrow> bytes" where
  "be_bytes 0 v = []"
| "be_bytes (Suc n) v = ucast (drop_bit (8 * n) v) # be_bytes n v"

section \<open>Auxiliary notions for the proofs\<close>


text \<open>
  No call of \<open>Done\<close> for a hash starts while another call of \<open>Done\<close> for the same hash
  is between its signal and its delete.
\<close>

fun Done_calls_apart :: "int \<Rightarrow> move list \<Rightarrow> interleaved \<Rightarrow> bool" where
  "Done_calls_apart maxActive [] s = True"
| "Done_calls_apart maxActive (m # ms) s =
     ((case Done_of m of None \<Rightarrow> True | Some hash \<Rightarrow> hash \<notin> set (deleting s)) \<and>
      Done_calls_apart maxActive ms (move_step maxActive m s))"

text \<open>
  The forced admissions that no later signal on \<open>cDone\<close> has offset yet: a \<open>ForceNext\<close>
  adds one, a signal on \<open>cDone\<close> takes one away, if there is one. \<open>n\<close> is the number at
  the start.
\<close>

fun forced_excess :: "int \<Rightarrow> move list \<Rightarrow> interleaved \<Rightarrow> nat \<Rightarrow> nat" where
  "forced_excess maxActive [] s n = n"
| "forced_excess maxActive (m # ms) s n =
     forced_excess maxActive ms (move_step maxActive m s)
       (if is_force_move m then Suc n else if signals m s then n - 1 else n)"

text \<open>The hashes in the map apart from those of the calls of \<open>Done\<close> that have signalled.\<close>

definition counted :: "interleaved \<Rightarrow> string set" where
  "counted s = activeHashes (pkg s) - set (deleting s)"

text \<open>
  The hashes in the map are finitely many, no hash has two calls of \<open>Done\<close> between signal
  and delete, and the hashes whose \<open>Done\<close> has not signalled are never more than the
  counter.
\<close>

definition moves_ok :: "interleaved \<Rightarrow> bool" where
  "moves_ok s =
     (finite (activeHashes (pkg s)) \<and> distinct (deleting s) \<and>
      int (card (counted s)) \<le> numActive (pkg s))"

text \<open>
  A bucket filled through \<open>Put\<close> with \<open>AutoIncrement\<close> only: its keys ascend strictly
  and none is beyond \<open>itob\<close> of the bucket's sequence number.
\<close>

definition bucket_ok :: "bucket \<Rightarrow> bool" where
  "bucket_ok b =
     (sorted_wrt (<) (map fst (entries b)) \<and>
      (\<forall>e \<in> set (entries b). fst e \<le> itob (sequence b)))"

definition keys_ok :: "queue \<Rightarrow> bool" where
  "keys_ok q = bucket_ok (Queued q)"

text \<open>
  The hashes handed over so far, followed by the hashes still queued.
\<close>

definition history :: "queue \<Rightarrow> string list" where
  "history q = map snd (cNext_sent q) @ queued_hashes q"

text \<open>
  The duty that \<open>Add\<close> leaves to its caller: a hash is added only while it is not
  in the bucket.
\<close>

fun adds_fresh :: "int \<Rightarrow> event list \<Rightarrow> queue \<Rightarrow> bool" where
  "adds_fresh k [] q = True"
| "adds_fresh k (CallAdd h # es) q =
     (h \<notin> set (queued_hashes q) \<and> adds_fresh k es (step k (CallAdd h) q))"
| "adds_fresh k (e # es) q = adds_fresh k es (step k e q)"

text \<open>
  Sample data: the record of a torrent \<open>a\<close> of 100 bytes, a call of \<open>startTorrent\<close>
  for it that has not ticked yet, a client that has completed the 100 bytes and uploaded 50,
  and a system in which \<open>a\<close> holds the only slot while \<open>b\<close> waits in the bucket.
\<close>

definition ex_info :: "Status \<Rightarrow> TorrentInfo" where
  "ex_info st = \<lparr>Hash = ''a'', Name = ''n'', TimeAdded = 0, TotalBytes = 100, Status = st,
                  Magnet = ''m'', LabelID = []\<rparr>"

definition ex_worker :: worker where
  "ex_worker = \<lparr>info = ex_info StatusQueued,
                 progress = \<lparr>tp_Hash = ''a'', BytesCompleted = 0, BytesUploaded = 0, BpsUp = 0,
                              BpsDown = 0, ActivePeers = 0, TotalPeers = 0, Ratio = 0\<rparr>\<rparr>"

definition ex_torrent :: torrent where
  "ex_torrent = \<lparr>BytesWritten = 50, t_BytesCompleted = 100, t_ActivePeers = 0, t_TotalPeers = 0\<rparr>"

definition ex_system :: "Status \<Rightarrow> system" where
  "ex_system st = \<lparr>queue_of = Run 1 [CallAdd ''a'', CallAdd ''b'', Tick] (start empty_bucket),
                    Torrents = [''a'' \<mapsto> ex_info st]\<rparr>"

section \<open>The scheduler: slots and counter\<close>

lemma admit_eq:
  "admit k q =
     (if numActive q < k
      then (case entries (Queued q) of
              [] \<Rightarrow> q
            | (key, v) # es \<Rightarrow>
                q\<lparr>Queued := (Queued q)\<lparr>entries := bolt_Delete key ((key, v) # es)\<rparr>,
                  numActive := numActive q + 1,
                  activeHashes := insert v (activeHashes q),
                  cNext_sent := cNext_sent q @ [(Polled, v)]\<rparr>)
      else q)"
  by (simp add: admit_def Get_GetFirstKey_def Delete_GetFirstKey_def bolt_First_def Next_def
      Let_def split: list.splits)



lemma Remove_fields [simp]:
  "numActive (Remove h q) = numActive q"
  "activeHashes (Remove h q) = activeHashes q"
  "cNext_sent (Remove h q) = cNext_sent q"
  by (simp_all add: Remove_def)

lemma Add_fields [simp]:
  "numActive (Add h q) = numActive q"
  "activeHashes (Add h q) = activeHashes q"
  "cNext_sent (Add h q) = cNext_sent q"
  by (simp_all add: Add_def)





lemma numActive_admit_le:
  "numActive q \<le> max 0 k + int c \<Longrightarrow> numActive (admit k q) \<le> max 0 k + int c"
  by (auto simp: admit_eq split: list.splits)

section \<open>The bucket: keys in byte order\<close>

text \<open>
  The lexicographic order of the eight big-endian bytes is the order of the numbers.
\<close>

lemma byte_unat: "unat (ucast (drop_bit (8 * n) (v::64 word)) :: 8 word) = (unat v div 256 ^ n) mod 256"
proof -
  have p: "(2::nat) ^ (8 * n) = 256 ^ n" by (simp add: power_mult)
  have "unat (ucast (drop_bit (8 * n) v) :: 8 word) = take_bit 8 (drop_bit (8 * n) (unat v))"
    by (simp add: unsigned_ucast_eq unat_drop_bit_eq)
  also have "\<dots> = (unat v div 256 ^ n) mod 256"
    by (simp only: take_bit_eq_mod drop_bit_eq_div p) simp
  finally show ?thesis .
qed

lemma lex_pair:
  fixes p ra rb da db :: nat
  assumes "ra < p" "rb < p"
  shows "(da * p + ra < db * p + rb) \<longleftrightarrow> (da < db \<or> (da = db \<and> ra < rb))"
proof (cases da db rule: linorder_cases)
  case less
  then have "Suc da * p \<le> db * p" by (simp only: mult_le_mono1 Suc_leI)
  then have "da * p + p \<le> db * p" by simp
  with assms less show ?thesis by linarith
next
  case equal
  then show ?thesis by simp
next
  case greater
  then have "Suc db * p \<le> da * p" by (simp only: mult_le_mono1 Suc_leI)
  then have "db * p + p \<le> da * p" by simp
  with assms greater show ?thesis by linarith
qed

lemma digit_cmp:
  fixes a b P :: nat
  assumes "0 < P"
  shows "(a mod (256 * P) < b mod (256 * P)) \<longleftrightarrow>
         ((a div P) mod 256 < (b div P) mod 256 \<or>
          ((a div P) mod 256 = (b div P) mod 256 \<and> a mod P < b mod P))"
proof -
  have ea: "a mod (256 * P) = ((a div P) mod 256) * P + a mod P"
    by (metis mod_mult2_eq mult.commute)
  have eb: "b mod (256 * P) = ((b div P) mod 256) * P + b mod P"
    by (metis mod_mult2_eq mult.commute)
  have ra: "a mod P < P" and rb: "b mod P < P" using assms by simp_all
  show ?thesis unfolding ea eb by (rule lex_pair [OF ra rb])
qed

lemma be_bytes_less:
  "(be_bytes n x < be_bytes n y) \<longleftrightarrow> (unat x mod 256 ^ n < unat y mod 256 ^ n)"
proof (induction n)
  case 0
  then show ?case by simp
next
  case (Suc n)
  have "(be_bytes (Suc n) x < be_bytes (Suc n) y) \<longleftrightarrow>
        ((ucast (drop_bit (8 * n) x) :: 8 word) < ucast (drop_bit (8 * n) y) \<or>
         ((ucast (drop_bit (8 * n) x) :: 8 word) = ucast (drop_bit (8 * n) y) \<and>
          be_bytes n x < be_bytes n y))"
    by auto
  also have "\<dots> \<longleftrightarrow> ((unat x div 256 ^ n) mod 256 < (unat y div 256 ^ n) mod 256 \<or>
         ((unat x div 256 ^ n) mod 256 = (unat y div 256 ^ n) mod 256 \<and>
          unat x mod 256 ^ n < unat y mod 256 ^ n))"
    by (simp only: word_less_nat_alt word_unat_eq_iff byte_unat Suc.IH)
  also have "\<dots> \<longleftrightarrow> (unat x mod (256 * 256 ^ n) < unat y mod (256 * 256 ^ n))"
    by (rule digit_cmp [symmetric]) simp
  finally show ?case by simp
qed

lemma itob_be_bytes: "itob v = be_bytes 8 v"
  by (simp add: itob_def eval_nat_numeral)

lemma itob_less: "(itob x < itob y) \<longleftrightarrow> (x < y)"
proof -
  have "unat x < 256 ^ 8" "unat y < 256 ^ 8"
    using unsigned_less [of x] unsigned_less [of y] by simp_all
  then show ?thesis
    by (simp add: itob_be_bytes be_bytes_less word_less_nat_alt)
qed

lemma bolt_Put_last:
  "\<forall>e \<in> set es. fst e < k \<Longrightarrow> bolt_Put k v es = es @ [(k, v)]"
  by (induction es) (auto simp: less_le_not_le)

lemma bolt_Put_set: "set (bolt_Put k v es) \<subseteq> insert (k, v) (set es)"
  by (induction es) (auto split: if_splits)

lemma bolt_Put_values: "set (map snd (bolt_Put k v es)) \<subseteq> insert v (set (map snd es))"
  using bolt_Put_set [of k v es] by force

lemma bolt_Put_distinct:
  "distinct (map snd es) \<Longrightarrow> v \<notin> set (map snd es) \<Longrightarrow> distinct (map snd (bolt_Put k v es))"
proof (induction es)
  case Nil
  then show ?case by simp
next
  case (Cons e es)
  obtain k' v' where e: "e = (k', v')" by (cases e)
  have "v' \<notin> set (map snd (bolt_Put k v es))"
    using bolt_Put_values [of k v es] Cons.prems e by auto
  then show ?case using Cons e by auto
qed

lemma fold_delete_filter:
  "fold (\<lambda>(k, v) es. if v = h then bolt_Delete k es else es) xs es =
   filter (\<lambda>e. fst e \<notin> fst ` {x \<in> set xs. snd x = h}) es"
proof (induction xs arbitrary: es)
  case Nil
  then show ?case by simp
next
  case (Cons x xs)
  obtain k v where x: "x = (k, v)" by (cases x)
  show ?case
  proof (cases "v = h")
    case True
    have "{y \<in> set (x # xs). snd y = h} = insert (k, v) {y \<in> set xs. snd y = h}"
      using True x by auto
    then show ?thesis using True x Cons.IH [of "bolt_Delete k es"]
      by (simp add: bolt_Delete_def conj_commute)
  next
    case False
    have "{y \<in> set (x # xs). snd y = h} = {y \<in> set xs. snd y = h}"
      using False x by auto
    then show ?thesis using False x Cons.IH [of es] by simp
  qed
qed

lemma Remove_entries:
  "entries (Queued (Remove h q)) =
   filter (\<lambda>e. fst e \<notin> fst ` {x \<in> set (entries (Queued q)). snd x = h}) (entries (Queued q))"
  by (simp add: Remove_def fold_delete_filter)

lemma Remove_sequence [simp]: "sequence (Queued (Remove h q)) = sequence (Queued q)"
  by (simp add: Remove_def)

lemma Remove_gone: "h \<notin> set (queued_hashes (Remove h q))"
  by (auto simp: queued_hashes_def Remove_entries)

lemma Remove_entries_distinct:
  "distinct (map fst (entries (Queued q))) \<Longrightarrow>
   entries (Queued (Remove h q)) = filter (\<lambda>e. snd e \<noteq> h) (entries (Queued q))"
  unfolding Remove_entries
  by (rule filter_cong) (auto simp: image_iff dest: eq_key_imp_eq_value)

lemma keys_ok_iff:
  "keys_ok q =
     (sorted_wrt (<) (map fst (entries (Queued q))) \<and>
      (\<forall>e \<in> set (entries (Queued q)). fst e \<le> itob (sequence (Queued q))))"
  by (simp add: keys_ok_def bucket_ok_def)

lemma unat_succ: "unat (s :: 64 word) + 1 < 2 ^ 64 \<Longrightarrow> unat (s + 1) = unat s + 1"
  by (simp add: unat_word_ariths)

lemma Add_last:
  assumes ok: "keys_ok q" and nowrap: "unat (sequence (Queued q)) + 1 < 2 ^ 64"
  shows "entries (Queued (Add h q)) =
           entries (Queued q) @ [(itob (sequence (Queued q) + 1), h)]"
    and "keys_ok (Add h q)"
proof -
  let ?s = "sequence (Queued q)"
  have lt: "?s < ?s + 1"
    using unat_succ [OF nowrap] by (simp add: word_less_nat_alt)
  then have next_key: "itob ?s < itob (?s + 1)" by (simp add: itob_less)
  have below: "\<forall>e \<in> set (entries (Queued q)). fst e < itob (?s + 1)"
  proof
    fix e assume "e \<in> set (entries (Queued q))"
    then have "fst e \<le> itob ?s" using ok by (simp add: keys_ok_iff)
    then show "fst e < itob (?s + 1)" using next_key by (rule le_less_trans)
  qed
  show e: "entries (Queued (Add h q)) = entries (Queued q) @ [(itob (?s + 1), h)]"
    by (simp add: Add_def Put_AutoIncrement_def bolt_NextSequence_def bolt_Put_last [OF below])
  have s: "sequence (Queued (Add h q)) = ?s + 1"
    by (simp add: Add_def Put_AutoIncrement_def bolt_NextSequence_def)
  have "sorted_wrt (<) (map fst (entries (Queued q)) @ [itob (?s + 1)])"
    using ok below by (auto simp: keys_ok_iff sorted_wrt_append)
  moreover have "\<forall>e \<in> set (entries (Queued q) @ [(itob (?s + 1), h)]). fst e \<le> itob (?s + 1)"
    using below by (auto simp: less_imp_le)
  ultimately show "keys_ok (Add h q)" unfolding keys_ok_iff e s by simp
qed

lemma bolt_Delete_hd:
  "sorted_wrt (<) (map fst ((k, v) # es)) \<Longrightarrow> bolt_Delete k ((k, v) # es) = es"
  by (auto simp: bolt_Delete_def filter_id_conv)

lemma admit_sorted:
  assumes "sorted_wrt (<) (map fst (entries (Queued q)))"
  shows "admit k q =
     (if numActive q < k
      then (case entries (Queued q) of
              [] \<Rightarrow> q
            | (key, v) # es \<Rightarrow>
                q\<lparr>Queued := (Queued q)\<lparr>entries := es\<rparr>,
                  numActive := numActive q + 1,
                  activeHashes := insert v (activeHashes q),
                  cNext_sent := cNext_sent q @ [(Polled, v)]\<rparr>)
      else q)"
proof (cases "entries (Queued q)")
  case Nil
  then show ?thesis by (simp add: admit_eq)
next
  case (Cons e es)
  obtain key v where e: "e = (key, v)" by (cases e)
  have "bolt_Delete key ((key, v) # es) = es"
    using assms Cons e by (intro bolt_Delete_hd) simp
  then show ?thesis using Cons e by (simp add: admit_eq)
qed

lemma admit_keys_ok: "keys_ok q \<Longrightarrow> keys_ok (admit k q)"
proof -
  assume ok: "keys_ok q"
  then have s: "sorted_wrt (<) (map fst (entries (Queued q)))" by (simp add: keys_ok_iff)
  show ?thesis using ok unfolding admit_sorted [OF s]
    by (auto simp: keys_ok_iff split: list.splits)
qed

lemma admit_history: "keys_ok q \<Longrightarrow> history (admit k q) = history q"
proof -
  assume ok: "keys_ok q"
  then have s: "sorted_wrt (<) (map fst (entries (Queued q)))" by (simp add: keys_ok_iff)
  show ?thesis unfolding admit_sorted [OF s]
    by (auto simp: history_def queued_hashes_def split: list.splits)
qed

lemma admit_sequence [simp]: "sequence (Queued (admit k q)) = sequence (Queued q)"
  by (simp add: admit_eq split: list.splits)

lemma Done_Queued [simp]: "Queued (Done h q) = Queued q"
  by (simp add: Done_def recv_cDone_def Let_def)

lemma Done_cNext_sent [simp]: "cNext_sent (Done h q) = cNext_sent q"
  by (simp add: Done_def recv_cDone_def Let_def)

lemma Done_keys_ok: "keys_ok q \<Longrightarrow> keys_ok (Done h q)"
  by (simp add: keys_ok_iff)

lemma Done_history: "history (Done h q) = history q"
  by (simp add: history_def queued_hashes_def)

lemma fifo_step:
  assumes ok: "keys_ok q" and nowrap: "unat (sequence (Queued q)) + 1 < 2 ^ 64"
    and e: "\<not> is_force e" "\<not> is_remove e"
  shows "keys_ok (step k e q)"
    and "history (step k e q) = history q @ added [e]"
    and "unat (sequence (Queued (step k e q))) \<le> unat (sequence (Queued q)) + 1"
proof -
  show "keys_ok (step k e q)"
    using e ok Add_last(2) [OF ok nowrap]
    by (cases e) (simp_all add: admit_keys_ok Done_keys_ok)
  show "history (step k e q) = history q @ added [e]"
    using e ok Add_last(1) [OF ok nowrap]
    by (cases e) (simp_all add: admit_history Done_keys_ok Done_history, simp add: history_def queued_hashes_def)
  show "unat (sequence (Queued (step k e q))) \<le> unat (sequence (Queued q)) + 1"
    using e unat_succ [OF nowrap]
    by (cases e) (simp_all add: Add_def Put_AutoIncrement_def bolt_NextSequence_def)
qed

lemma added_Cons: "added (e # es) = added [e] @ added es"
  by (cases e) simp_all

lemma fifo_Run:
  assumes "keys_ok q" and "unat (sequence (Queued q)) + length es < 2 ^ 64"
    and "\<forall>e \<in> set es. \<not> is_force e \<and> \<not> is_remove e"
  shows "keys_ok (Run k es q) \<and> history (Run k es q) = history q @ added es"
  using assms
proof (induction es arbitrary: q)
  case Nil
  then show ?case by simp
next
  case (Cons e es)
  have nowrap: "unat (sequence (Queued q)) + 1 < 2 ^ 64" using Cons.prems(2) by simp
  have e: "\<not> is_force e" "\<not> is_remove e" using Cons.prems(3) by simp_all
  note st = fifo_step [OF Cons.prems(1) nowrap e, of k]
  have "unat (sequence (Queued (step k e q))) + length es < 2 ^ 64"
    using st(3) Cons.prems(2) by simp
  from Cons.IH [OF st(1) this] Cons.prems(3)
  show ?case by (simp add: st(2) added_Cons [of e es])
qed

lemma Remove_keys_ok: "keys_ok q \<Longrightarrow> keys_ok (Remove h q)"
  by (auto simp: keys_ok_iff Remove_entries sorted_wrt_map sorted_wrt_filter)

lemma Remove_history: "subseq (history (Remove h q)) (history q)"
  by (auto simp: history_def queued_hashes_def Remove_entries intro!: list_emb_append_mono subseq_map)

lemma Remove_queued:
  "distinct (map fst (entries (Queued q))) \<Longrightarrow>
   queued_hashes (Remove h q) = filter (\<lambda>v. v \<noteq> h) (queued_hashes q)"
  by (simp add: queued_hashes_def Remove_entries_distinct filter_map comp_def)

lemma order_step:
  assumes ok: "keys_ok q" and nowrap: "unat (sequence (Queued q)) + 1 < 2 ^ 64"
    and e: "\<not> is_force e"
  shows "keys_ok (step k e q)"
    and "subseq (history (step k e q)) (history q @ added [e])"
    and "\<not> is_remove e \<Longrightarrow> history (step k e q) = history q @ added [e]"
    and "unat (sequence (Queued (step k e q))) \<le> unat (sequence (Queued q)) + 1"
proof -
  show k: "keys_ok (step k e q)"
  proof (cases "is_remove e")
    case True
    then show ?thesis using ok by (cases e) (simp_all add: Remove_keys_ok)
  next
    case False
    then show ?thesis using fifo_step(1) [OF ok nowrap e] by simp
  qed
  show h: "\<not> is_remove e \<Longrightarrow> history (step k e q) = history q @ added [e]"
    using fifo_step(2) [OF ok nowrap e] by simp
  show "subseq (history (step k e q)) (history q @ added [e])"
  proof (cases "is_remove e")
    case True
    then show ?thesis by (cases e) (simp_all add: Remove_history)
  next
    case False
    then show ?thesis using h by simp
  qed
  show "unat (sequence (Queued (step k e q))) \<le> unat (sequence (Queued q)) + 1"
  proof (cases "is_remove e")
    case True
    then show ?thesis by (cases e) simp_all
  next
    case False
    then show ?thesis using fifo_step(3) [OF ok nowrap e] by simp
  qed
qed

lemma order_Run:
  assumes "keys_ok q" and "unat (sequence (Queued q)) + length es < 2 ^ 64"
    and "\<forall>e \<in> set es. \<not> is_force e"
  shows "keys_ok (Run k es q) \<and> subseq (history (Run k es q)) (history q @ added es)"
  using assms
proof (induction es arbitrary: q)
  case Nil
  then show ?case by simp
next
  case (Cons e es)
  have nowrap: "unat (sequence (Queued q)) + 1 < 2 ^ 64" using Cons.prems(2) by simp
  have e: "\<not> is_force e" using Cons.prems(3) by simp
  note st = order_step [OF Cons.prems(1) nowrap e, of k]
  have "unat (sequence (Queued (step k e q))) + length es < 2 ^ 64"
    using st(4) Cons.prems(2) by simp
  from Cons.IH [OF st(1) this] Cons.prems(3)
  have ih: "keys_ok (Run k es (step k e q))"
    "subseq (history (Run k es (step k e q))) (history (step k e q) @ added es)" by simp_all
  have "subseq (history (step k e q) @ added es) ((history q @ added [e]) @ added es)"
    using st(2) by (intro list_emb_append_mono) simp_all
  with ih(2) have "subseq (history (Run k es (step k e q))) ((history q @ added [e]) @ added es)"
    by (rule subseq_order.trans)
  then show ?case using ih(1) by (simp add: added_Cons [of e es])
qed

section \<open>The bucket: which hashes are queued\<close>

lemma queued_Add:
  "set (queued_hashes (Add h q)) \<subseteq> insert h (set (queued_hashes q))"
  using bolt_Put_values [of _ h "entries (Queued q)"]
  by (simp add: queued_hashes_def Add_def Put_AutoIncrement_def bolt_NextSequence_def)

lemma distinct_Add:
  "distinct (queued_hashes q) \<Longrightarrow> h \<notin> set (queued_hashes q) \<Longrightarrow> distinct (queued_hashes (Add h q))"
  by (simp add: queued_hashes_def Add_def Put_AutoIncrement_def bolt_NextSequence_def bolt_Put_distinct)

lemma queued_Remove: "set (queued_hashes (Remove h q)) \<subseteq> set (queued_hashes q)"
  by (auto simp: queued_hashes_def Remove_entries)

lemma distinct_Remove: "distinct (queued_hashes q) \<Longrightarrow> distinct (queued_hashes (Remove h q))"
  by (simp add: queued_hashes_def Remove_entries distinct_map_filter)

lemma Next_Queued [simp]: "Queued (Next a h q) = Queued q"
  by (simp add: Next_def)

lemma queued_recv_cForce: "set (queued_hashes (recv_cForce h q)) \<subseteq> set (queued_hashes q)"
  using queued_Remove [of h "q\<lparr>numActive := numActive q + 1\<rparr>"]
  by (simp add: recv_cForce_def queued_hashes_def)

lemma distinct_recv_cForce:
  "distinct (queued_hashes q) \<Longrightarrow> distinct (queued_hashes (recv_cForce h q))"
  using distinct_Remove [of "q\<lparr>numActive := numActive q + 1\<rparr>" h]
  by (simp add: recv_cForce_def queued_hashes_def)

lemma queued_admit: "set (queued_hashes (admit k q)) \<subseteq> set (queued_hashes q)"
  by (auto simp: admit_eq queued_hashes_def bolt_Delete_def split: list.splits)

lemma distinct_admit: "distinct (queued_hashes q) \<Longrightarrow> distinct (queued_hashes (admit k q))"
  by (auto simp: admit_eq queued_hashes_def bolt_Delete_def distinct_map_filter split: list.splits)

lemma queued_Done [simp]: "queued_hashes (Done h q) = queued_hashes q"
  by (simp add: queued_hashes_def)

lemma distinct_step:
  "distinct (queued_hashes q) \<Longrightarrow> adds_fresh k [e] q \<Longrightarrow> distinct (queued_hashes (step k e q))"
  by (cases e) (simp_all add: distinct_Add distinct_Remove distinct_admit distinct_recv_cForce)

lemma adds_fresh_Cons: "adds_fresh k (e # es) q = (adds_fresh k [e] q \<and> adds_fresh k es (step k e q))"
  by (cases e) simp_all

lemma distinct_Run:
  "distinct (queued_hashes q) \<Longrightarrow> adds_fresh k es q \<Longrightarrow> distinct (queued_hashes (Run k es q))"
proof (induction es arbitrary: q)
  case Nil
  then show ?case by simp
next
  case (Cons e es)
  from Cons.prems(2) have f: "adds_fresh k [e] q" "adds_fresh k es (step k e q)"
    by (simp_all add: adds_fresh_Cons [of k e es])
  show ?case using Cons.IH [OF distinct_step [OF Cons.prems(1) f(1)] f(2)] by simp
qed

lemma polled_admit:
  "h \<notin> set (queued_hashes q) \<Longrightarrow>
   \<exists>ys. cNext_sent (admit k q) = cNext_sent q @ ys \<and> (Polled, h) \<notin> set ys"
  by (auto simp: admit_eq queued_hashes_def split: list.splits)

lemma polled_step:
  assumes "h \<notin> set (queued_hashes q)" and "e \<noteq> CallAdd h"
  shows "h \<notin> set (queued_hashes (step k e q))"
    and "\<exists>ys. cNext_sent (step k e q) = cNext_sent q @ ys \<and> (Polled, h) \<notin> set ys"
proof -
  show "h \<notin> set (queued_hashes (step k e q))"
  proof (cases e)
    case (CallAdd h')
    then show ?thesis using assms queued_Add [of h' q] by auto
  next
    case (CallRemove h')
    then show ?thesis using assms queued_Remove [of h' q] by auto
  next
    case (CallForceNext h')
    then show ?thesis
      using assms queued_recv_cForce [of h' q] queued_admit [of k "recv_cForce h' q"] by auto
  next
    case (CallDone h')
    then show ?thesis using assms queued_admit [of k "Done h' q"] by auto
  next
    case Tick
    then show ?thesis using assms queued_admit [of k q] by auto
  qed
  show "\<exists>ys. cNext_sent (step k e q) = cNext_sent q @ ys \<and> (Polled, h) \<notin> set ys"
  proof (cases e)
    case (CallForceNext h')
    have "h \<notin> set (queued_hashes (recv_cForce h' q))"
      using assms queued_recv_cForce [of h' q] by auto
    from polled_admit [OF this, of k] obtain ys where
      "cNext_sent (admit k (recv_cForce h' q)) = cNext_sent (recv_cForce h' q) @ ys"
      "(Polled, h) \<notin> set ys" by blast
    then have "cNext_sent (step k e q) = cNext_sent q @ ((Forced, h') # ys) \<and> (Polled, h) \<notin> set ((Forced, h') # ys)"
      using CallForceNext by (simp add: recv_cForce_def Next_def)
    then show ?thesis by blast
  next
    case (CallDone h')
    have "h \<notin> set (queued_hashes (Done h' q))" using assms by simp
    from polled_admit [OF this, of k] show ?thesis using CallDone by auto
  next
    case Tick
    then show ?thesis using polled_admit [OF assms(1), of k] by simp
  qed simp_all
qed

lemma polled_Run:
  assumes "h \<notin> set (queued_hashes q)" and "CallAdd h \<notin> set es"
  shows "\<exists>ys. cNext_sent (Run k es q) = cNext_sent q @ ys \<and> (Polled, h) \<notin> set ys"
  using assms
proof (induction es arbitrary: q)
  case Nil
  then show ?case by simp
next
  case (Cons e es)
  have e: "e \<noteq> CallAdd h" and es: "CallAdd h \<notin> set es" using Cons.prems(2) by auto
  note st = polled_step [OF Cons.prems(1) e, of k]
  from st(2) obtain ys where ys: "cNext_sent (step k e q) = cNext_sent q @ ys" "(Polled, h) \<notin> set ys"
    by blast
  from Cons.IH [OF st(1) es] obtain zs where
    zs: "cNext_sent (Run k es (step k e q)) = cNext_sent (step k e q) @ zs" "(Polled, h) \<notin> set zs"
    by blast
  have "cNext_sent (Run k (e # es) q) = cNext_sent q @ (ys @ zs) \<and> (Polled, h) \<notin> set (ys @ zs)"
    using ys zs by simp
  then show ?case by blast
qed

lemma activeHashes_admit:
  "activeHashes (admit k q) \<subseteq> activeHashes q \<union> set (queued_hashes q)"
  by (auto simp: admit_eq queued_hashes_def split: list.splits)

lemma released_step:
  assumes "h \<notin> activeHashes q" and "h \<notin> set (queued_hashes q)"
    and "e \<noteq> CallAdd h" and "e \<noteq> CallForceNext h"
  shows "h \<notin> activeHashes (step k e q) \<and> h \<notin> set (queued_hashes (step k e q))"
proof -
  have q: "h \<notin> set (queued_hashes (step k e q))"
    using assms(2,3) by (rule polled_step(1))
  have "h \<notin> activeHashes (step k e q)"
  proof (cases e)
    case (CallForceNext h')
    have "h \<notin> activeHashes (recv_cForce h' q)"
      using assms(1,4) CallForceNext by (simp add: recv_cForce_def Next_def)
    moreover have "h \<notin> set (queued_hashes (recv_cForce h' q))"
      using assms(2) queued_recv_cForce [of h' q] by auto
    ultimately show ?thesis
      using CallForceNext activeHashes_admit [of k "recv_cForce h' q"] by auto
  next
    case (CallDone h')
    have "h \<notin> activeHashes (Done h' q)" using assms(1) by (simp add: Done_def)
    then show ?thesis
      using CallDone assms(1,2) activeHashes_admit [of k "Done h' q"] by auto
  next
    case Tick
    then show ?thesis using assms(1,2) activeHashes_admit [of k q] by auto
  qed (use assms(1) in simp_all)
  then show ?thesis using q by simp
qed

lemma released_Run:
  assumes "h \<notin> activeHashes q" and "h \<notin> set (queued_hashes q)"
    and "CallAdd h \<notin> set es" and "CallForceNext h \<notin> set es"
  shows "h \<notin> activeHashes (Run k es q)"
  using assms
proof (induction es arbitrary: q)
  case Nil
  then show ?case by simp
next
  case (Cons e es)
  have "h \<notin> activeHashes (step k e q) \<and> h \<notin> set (queued_hashes (step k e q))"
    using Cons.prems by (intro released_step) auto
  then show ?case using Cons.IH [of "step k e q"] Cons.prems(3,4) by simp
qed


section \<open>The scheduler with \<open>Done\<close> in two moves\<close>

lemma admit_active: "activeHashes (admit k q) = activeHashes q \<or>
   (\<exists>v. activeHashes (admit k q) = insert v (activeHashes q) \<and> numActive (admit k q) = numActive q + 1)"
  by (auto simp: admit_eq split: list.splits)

lemma admit_numActive_ge: "numActive q \<le> numActive (admit k q)"
  by (auto simp: admit_eq split: list.splits)

lemma admit_finite: "finite (activeHashes q) \<Longrightarrow> finite (activeHashes (admit k q))"
  by (auto simp: admit_eq split: list.splits)

lemma admit_counted:
  assumes "finite A" and "int (card (A - D)) \<le> numActive q" and "activeHashes q = A"
  shows "int (card (activeHashes (admit k q) - D)) \<le> numActive (admit k q)"
proof -
  from admit_active [of k q] show ?thesis
  proof
    assume "activeHashes (admit k q) = activeHashes q"
    then show ?thesis using assms admit_numActive_ge [of q k] by simp
  next
    assume "\<exists>v. activeHashes (admit k q) = insert v (activeHashes q) \<and>
                 numActive (admit k q) = numActive q + 1"
    then obtain v where v: "activeHashes (admit k q) = insert v A"
      "numActive (admit k q) = numActive q + 1" using assms(3) by auto
    have "insert v A - D \<subseteq> insert v (A - D)" by auto
    then have "card (insert v A - D) \<le> card (insert v (A - D))"
      using assms(1) by (intro card_mono) simp_all
    also have "\<dots> \<le> Suc (card (A - D))" using assms(1) by (simp add: card_insert_if)
    finally show ?thesis using v assms(2) by simp
  qed
qed

lemma moves_ok_start: "moves_ok (start_moves b)"
  by (simp add: moves_ok_def start_moves_def start_def counted_def)

lemma counted_insert:
  assumes "finite A" and "int (card (A - D)) \<le> n"
  shows "int (card (insert h A - D)) \<le> n + 1"
proof -
  have "insert h A - D \<subseteq> insert h (A - D)" by auto
  then have "card (insert h A - D) \<le> card (insert h (A - D))"
    using assms(1) by (intro card_mono) simp_all
  also have "\<dots> \<le> Suc (card (A - D))" using assms(1) by (simp add: card_insert_if)
  finally show ?thesis using assms(2) by simp
qed

lemma counted_release:
  assumes "finite A" and "int (card (A - D)) \<le> n" and "h \<in> A" and "h \<notin> D"
  shows "1 \<le> n" and "int (card (A - {h} - D)) \<le> n - 1" and "int (card (A - insert h D)) \<le> n - 1"
proof -
  have h: "h \<in> A - D" using assms(3,4) by simp
  have f: "finite (A - D)" using assms(1) by simp
  have pos: "0 < card (A - D)" using h f by (auto simp: card_gt_0_iff)
  then show "1 \<le> n" using assms(2) by linarith
  have e: "A - {h} - D = (A - D) - {h}" "A - insert h D = (A - D) - {h}" by auto
  have "card ((A - D) - {h}) = card (A - D) - 1" using h f by simp
  then show "int (card (A - {h} - D)) \<le> n - 1" "int (card (A - insert h D)) \<le> n - 1"
    unfolding e using pos assms(2) by linarith+
qed

lemma moves_ok_Whole:
  assumes ok: "moves_ok s" and apart: "case Done_of (Whole e) of None \<Rightarrow> True | Some h \<Rightarrow> h \<notin> set (deleting s)"
  shows "moves_ok (move_step k (Whole e) s)"
proof -
  let ?q = "pkg s" and ?D = "set (deleting s)"
  from ok have fin: "finite (activeHashes ?q)" and dist: "distinct (deleting s)"
    and le: "int (card (activeHashes ?q - ?D)) \<le> numActive ?q"
    by (simp_all add: moves_ok_def counted_def)
  have goal: "moves_ok (s\<lparr>pkg := q'\<rparr>)"
    if "finite (activeHashes q')" "int (card (activeHashes q' - ?D)) \<le> numActive q'" for q'
    using that dist by (simp add: moves_ok_def counted_def)
  show ?thesis
  proof (cases e)
    case (CallAdd h)
    then show ?thesis using fin le by (simp add: goal)
  next
    case (CallRemove h)
    then show ?thesis using fin le by (simp add: goal)
  next
    case (CallForceNext h)
    let ?q1 = "recv_cForce h ?q"
    have a: "activeHashes ?q1 = insert h (activeHashes ?q)" "numActive ?q1 = numActive ?q + 1"
      by (simp_all add: recv_cForce_def Next_def)
    have f1: "finite (activeHashes ?q1)" using fin a by simp
    have "int (card (activeHashes ?q1 - ?D)) \<le> numActive ?q1"
      unfolding a by (rule counted_insert [OF fin le])
    from admit_counted [OF f1 this refl, of k] admit_finite [OF f1, of k]
    show ?thesis using CallForceNext by (simp add: goal)
  next
    case (CallDone h)
    show ?thesis
    proof (cases "h \<in> activeHashes ?q")
      case True
      have hD: "h \<notin> ?D" using apart CallDone by simp
      let ?q1 = "Done h ?q"
      note r = counted_release [OF fin le True hD]
      have a: "activeHashes ?q1 = activeHashes ?q - {h}" "numActive ?q1 = numActive ?q - 1"
        using True r(1) by (simp_all add: Done_def recv_cDone_def Let_def)
      have f1: "finite (activeHashes ?q1)" using fin a by simp
      have "int (card (activeHashes ?q1 - ?D)) \<le> numActive ?q1"
        unfolding a by (rule r(2))
      from admit_counted [OF f1 this refl, of k] admit_finite [OF f1, of k]
      show ?thesis using CallDone True by (simp add: goal)
    next
      case False
      then show ?thesis using CallDone ok by simp
    qed
  next
    case Tick
    from admit_counted [OF fin le refl, of k] admit_finite [OF fin, of k]
    show ?thesis using Tick by (simp add: goal)
  qed
qed

lemma moves_ok_step:
  assumes ok: "moves_ok s"
    and apart: "case Done_of m of None \<Rightarrow> True | Some h \<Rightarrow> h \<notin> set (deleting s)"
  shows "moves_ok (move_step k m s)"
proof (cases m)
  case (Whole e)
  then show ?thesis using moves_ok_Whole [OF ok, of e k] apart by simp
next
  case (Done_send h)
  let ?q = "pkg s" and ?D = "set (deleting s)"
  from ok have fin: "finite (activeHashes ?q)" and dist: "distinct (deleting s)"
    and le: "int (card (activeHashes ?q - ?D)) \<le> numActive ?q"
    by (simp_all add: moves_ok_def counted_def)
  show ?thesis
  proof (cases "h \<in> activeHashes ?q")
    case True
    have hD: "h \<notin> ?D" using apart Done_send by simp
    let ?q1 = "recv_cDone ?q"
    note r = counted_release [OF fin le True hD]
    have a: "activeHashes ?q1 = activeHashes ?q" "numActive ?q1 = numActive ?q - 1"
      using r(1) by (simp_all add: recv_cDone_def Let_def)
    have f1: "finite (activeHashes ?q1)" using fin a by simp
    have "int (card (activeHashes ?q1 - insert h ?D)) \<le> numActive ?q1"
      unfolding a by (rule r(3))
    from admit_counted [OF f1 this refl, of k] admit_finite [OF f1, of k]
    show ?thesis using Done_send True dist hD by (simp add: moves_ok_def counted_def)
  next
    case False
    then show ?thesis using Done_send ok by simp
  qed
next
  case (Done_delete h)
  show ?thesis
  proof (cases "h \<in> set (deleting s)")
    case True
    have "activeHashes (pkg s) - {h} - (set (deleting s) - {h})
            = activeHashes (pkg s) - set (deleting s)"
      using True by auto
    then show ?thesis using Done_delete True ok
      by (simp add: moves_ok_def counted_def)
  next
    case False
    then show ?thesis using Done_delete ok by simp
  qed
qed

lemma moves_ok_Run:
  "moves_ok s \<Longrightarrow> Done_calls_apart k ms s \<Longrightarrow> moves_ok (Run_moves k ms s)"
proof (induction ms arbitrary: s)
  case Nil
  then show ?case by simp
next
  case (Cons m ms)
  from Cons.prems(2) have a: "case Done_of m of None \<Rightarrow> True | Some h \<Rightarrow> h \<notin> set (deleting s)"
    and b: "Done_calls_apart k ms (move_step k m s)" by simp_all
  show ?case using Cons.IH [OF moves_ok_step [OF Cons.prems(1) a] b] by simp
qed

lemma recv_cDone_le:
  "numActive q \<le> max 0 k + int n \<Longrightarrow> numActive (recv_cDone q) \<le> max 0 k + int (n - 1)"
  by (auto simp: recv_cDone_def Let_def)

lemma excess_step:
  assumes a: "numActive (pkg s) \<le> max 0 k + int n"
  shows "numActive (pkg (move_step k m s))
           \<le> max 0 k + int (if is_force_move m then Suc n else if signals m s then n - 1 else n)"
proof (cases m)
  case (Whole e)
  show ?thesis
  proof (cases e)
    case (CallForceNext h)
    have "numActive (recv_cForce h (pkg s)) \<le> max 0 k + int (Suc n)"
      using a by (simp add: recv_cForce_def Next_def)
    then have "numActive (admit k (recv_cForce h (pkg s))) \<le> max 0 k + int (Suc n)"
      by (rule numActive_admit_le)
    then show ?thesis using Whole CallForceNext by simp
  next
    case (CallDone h)
    show ?thesis
    proof (cases "h \<in> activeHashes (pkg s)")
      case True
      have "numActive (Done h (pkg s)) \<le> max 0 k + int (n - 1)"
        using recv_cDone_le [OF a] True by (simp add: Done_def)
      then have "numActive (admit k (Done h (pkg s))) \<le> max 0 k + int (n - 1)"
        by (rule numActive_admit_le)
      then show ?thesis using Whole CallDone True by simp
    next
      case False
      then show ?thesis using Whole CallDone a by simp
    qed
  next
    case Tick
    then show ?thesis using Whole numActive_admit_le [OF a] by simp
  qed (use Whole a in simp_all)
next
  case (Done_send h)
  show ?thesis
  proof (cases "h \<in> activeHashes (pkg s)")
    case True
    have "numActive (admit k (recv_cDone (pkg s))) \<le> max 0 k + int (n - 1)"
      using recv_cDone_le [OF a] by (rule numActive_admit_le)
    then show ?thesis using Done_send True by simp
  next
    case False
    then show ?thesis using Done_send a by simp
  qed
next
  case (Done_delete h)
  then show ?thesis using a by simp
qed

lemma excess_Run:
  "numActive (pkg s) \<le> max 0 k + int n \<Longrightarrow>
   numActive (pkg (Run_moves k ms s)) \<le> max 0 k + int (forced_excess k ms s n)"
proof (induction ms arbitrary: s n)
  case Nil
  then show ?case by simp
next
  case (Cons m ms)
  show ?case using Cons.IH [OF excess_step [OF Cons.prems, of m]] by simp
qed

lemma forced_excess_none:
  "\<forall>m \<in> set ms. \<not> is_force_move m \<Longrightarrow> forced_excess k ms s 0 = 0"
  by (induction ms arbitrary: s) simp_all

lemma active_le_counted:
  assumes "finite (activeHashes (pkg s))"
  shows "card (activeHashes (pkg s)) \<le> card (counted s) + length (deleting s)"
proof -
  have "activeHashes (pkg s) \<subseteq> counted s \<union> set (deleting s)" by (auto simp: counted_def)
  then have "card (activeHashes (pkg s)) \<le> card (counted s \<union> set (deleting s))"
    using assms by (intro card_mono) (simp_all add: counted_def)
  also have "\<dots> \<le> card (counted s) + card (set (deleting s))" by (rule card_Un_le)
  also have "\<dots> \<le> card (counted s) + length (deleting s)" by (simp add: card_length)
  finally show ?thesis .
qed




lemma admit_mechanism:
  "\<not> numActive q < k \<Longrightarrow> admit k q = q"
  "numActive (admit k q)
     = numActive q + int (length (cNext_sent (admit k q)) - length (cNext_sent q))"
  by (auto simp: admit_eq split: list.splits)

lemma counted_recv_cDone:
  assumes "moves_ok s" and "h \<in> counted s"
  shows "numActive (recv_cDone (pkg s)) = numActive (pkg s) - 1"
proof -
  have "0 < card (counted s)"
    using assms by (auto simp: moves_ok_def counted_def card_gt_0_iff)
  then have "1 \<le> numActive (pkg s)" using assms(1) by (simp add: moves_ok_def)
  then show ?thesis by (simp add: recv_cDone_def Let_def)
qed

lemma recv_cDone_fields [simp]:
  "activeHashes (recv_cDone q) = activeHashes q"
  "Queued (recv_cDone q) = Queued q"
  "cNext_sent (recv_cDone q) = cNext_sent q"
  by (simp_all add: recv_cDone_def Let_def)





section \<open>The loop of startTorrent: one tick\<close>

lemma Update_fields [simp]:
  "BytesCompleted (Update t tp) = t_BytesCompleted t"
  "BytesUploaded (Update t tp) = BytesWritten t"
  "Ratio (Update t tp) =
     (if t_BytesCompleted t = 0 then 0
      else real_of_int (sint (BytesWritten t)) / real_of_int (sint (t_BytesCompleted t)))"
  by (simp_all add: Update_def Let_def del: of_int_sint)

lemma Ratio_nonneg:
  "0 \<le> sint (BytesWritten t) \<Longrightarrow> 0 \<le> sint (t_BytesCompleted t) \<Longrightarrow> 0 \<le> Ratio (Update t tp)"
  by (simp del: of_int_sint)

lemma Update_exact: "Update t tp = Update_rounded (\<lambda>a b. real_of_int a / real_of_int b) t tp"
  by (simp add: Update_def Update_rounded_def)

lemma tick_exact:
  "tick globalRatio maxActive hash cl ws
     = tick_rounded (\<lambda>a b. real_of_int a / real_of_int b) globalRatio maxActive hash cl ws"
  by (cases ws; cases cl) (simp_all add: tick_def tick_rounded_def Update_exact)

lemma Update_rounded_BytesCompleted [simp]:
  "BytesCompleted (Update_rounded quot t tp) = t_BytesCompleted t"
  by (simp add: Update_rounded_def Let_def)



section \<open>Evaluation of the definitions on concrete inputs\<close>

lemmas queue_eval =
  admit_eq Add_def Remove_def Done_def Next_def recv_cDone_def recv_cForce_def
  Put_AutoIncrement_def bolt_NextSequence_def bolt_Delete_def start_def empty_bucket_def
  itob_def queued_hashes_def Let_def

lemmas moves_eval = queue_eval start_moves_def counted_def

lemmas worker_eval = tick_def close_worker_def ex_system_def ex_info_def ex_torrent_def ex_worker_def

section \<open>The claims\<close>

subsection \<open>C1\<close>

text \<open>
  Claim C1 says that, when \<open>Run\<close> is started with \<open>maxActive = k\<close> and \<open>ForceNext\<close> is
  never called, at most \<open>k\<close> hashes are in the set of active hashes in every reachable
  state. \<open>Done\<close> deletes its hash only after its signal, and on the signal \<open>Run\<close> pops the
  next entry, which \<open>Next\<close> stores: with \<open>maxActive = 1\<close> and no \<open>ForceNext\<close>, after
  \<open>Add a\<close>, \<open>Add b\<close>, a tick and the signal of \<open>Done a\<close>, both \<open>a\<close> and \<open>b\<close> are in
  the map. Two more cases are recorded: with a negative \<open>maxActive\<close> the empty set at the
  start is already more than \<open>maxActive\<close>; and when two calls of \<open>Done a\<close> overlap, both
  find \<open>a\<close> in the map and both signal, \<open>Run\<close> counts the one hash twice, and two hashes
  stay in the map with \<open>maxActive = 1\<close> after both calls have returned.
\<close>

theorem Done_window_exceeds_maxActive:
  "activeHashes (pkg (Run_moves 1
       [Whole (CallAdd ''a''), Whole (CallAdd ''b''), Whole Tick, Done_send ''a'']
       (start_moves empty_bucket))) = {''a'', ''b''} \<and>
   \<not> int (card (activeHashes (pkg (Run_moves 1
       [Whole (CallAdd ''a''), Whole (CallAdd ''b''), Whole Tick, Done_send ''a'']
       (start_moves empty_bucket))))) \<le> 1 \<and>
   \<not> int (card (activeHashes (pkg (Run_moves (- 1) [] (start_moves empty_bucket))))) \<le> - 1 \<and>
   deleting (Run_moves 1
       [Whole (CallAdd ''a''), Whole (CallAdd ''b''), Whole Tick, Done_send ''a'', Done_send ''a'',
        Whole (CallAdd ''c''), Whole Tick, Done_delete ''a'', Done_delete ''a'']
       (start_moves empty_bucket)) = [] \<and>
   \<not> int (card (activeHashes (pkg (Run_moves 1
       [Whole (CallAdd ''a''), Whole (CallAdd ''b''), Whole Tick, Done_send ''a'', Done_send ''a'',
        Whole (CallAdd ''c''), Whole Tick, Done_delete ''a'', Done_delete ''a'']
       (start_moves empty_bucket))))) \<le> 1"
  by (simp add: moves_eval insert_commute)

text \<open>
  Claim C1, amended. Let \<open>Run\<close> be started with \<open>maxActive = k\<close>, let \<open>ForceNext\<close> never
  be called, and let no call of \<open>Done\<close> for a hash start while another call of \<open>Done\<close> for
  the same hash is between its signal and its delete. Then in every reachable state the
  counter is at most \<open>k\<close>, or 0 if \<open>k\<close> is negative; the hashes in the map whose \<open>Done\<close>
  has not signalled are at most as many as the counter, hence at most \<open>k\<close>; and the map
  holds at most \<open>k\<close> hashes plus one for each call of \<open>Done\<close> between signal and delete.
  The mechanism: the admission check changes nothing unless the counter is below \<open>k\<close>; it
  raises the counter by one per hash it hands over; and the signal of a \<open>Done\<close> of such a
  hash lowers the counter by exactly one.
\<close>

theorem counted_bounded_without_force:
  assumes "\<forall>m \<in> set ms. \<not> is_force_move m"
    and "Done_calls_apart maxActive ms (start_moves b)"
  shows "numActive (pkg (Run_moves maxActive ms (start_moves b))) \<le> max 0 maxActive \<and>
         int (card (counted (Run_moves maxActive ms (start_moves b))))
           \<le> numActive (pkg (Run_moves maxActive ms (start_moves b))) \<and>
         int (card (activeHashes (pkg (Run_moves maxActive ms (start_moves b)))))
           \<le> max 0 maxActive + int (length (deleting (Run_moves maxActive ms (start_moves b)))) \<and>
         (\<not> numActive q < maxActive \<longrightarrow> admit maxActive q = q) \<and>
         numActive (admit maxActive q)
           = numActive q + int (length (cNext_sent (admit maxActive q)) - length (cNext_sent q)) \<and>
         (hash \<in> counted (Run_moves maxActive ms (start_moves b)) \<longrightarrow>
            numActive (recv_cDone (pkg (Run_moves maxActive ms (start_moves b))))
              = numActive (pkg (Run_moves maxActive ms (start_moves b))) - 1)"
proof -
  let ?s = "Run_moves maxActive ms (start_moves b)"
  have "numActive (pkg (start_moves b)) \<le> max 0 maxActive + int 0"
    by (simp add: start_moves_def start_def)
  from excess_Run [OF this, of ms]
  have n: "numActive (pkg ?s) \<le> max 0 maxActive"
    using forced_excess_none [OF assms(1)] by simp
  have ok: "moves_ok ?s" using moves_ok_start assms(2) by (rule moves_ok_Run)
  then have c: "int (card (counted ?s)) \<le> numActive (pkg ?s)" by (simp add: moves_ok_def)
  have "card (activeHashes (pkg ?s)) \<le> card (counted ?s) + length (deleting ?s)"
    using ok by (intro active_le_counted) (simp add: moves_ok_def)
  then have a: "int (card (activeHashes (pkg ?s))) \<le> max 0 maxActive + int (length (deleting ?s))"
    using n c by linarith
  from n c a admit_mechanism [where q = q and k = maxActive] counted_recv_cDone [OF ok, of hash]
  show ?thesis by blast
qed

text \<open>
  Scenario A of the specification, with the \<open>Done\<close> of \<open>a\<close> in its two moves: with
  \<open>maxActive = 1\<close>, \<open>a\<close> is admitted first and \<open>b\<close> on the signal of \<open>Done a\<close>; between
  the signal and the delete only \<open>b\<close> counts, and after the delete only \<open>b\<close> is in the map.
\<close>

theorem counted_bounded_without_force_witness:
  "\<not> is_force_move (Whole (CallAdd ''a'')) \<and> \<not> is_force_move (Whole (CallAdd ''b'')) \<and>
   \<not> is_force_move (Whole Tick) \<and> \<not> is_force_move (Done_send ''a'') \<and>
   \<not> is_force_move (Done_delete ''a'') \<and>
   Done_calls_apart 1
     [Whole (CallAdd ''a''), Whole (CallAdd ''b''), Whole Tick, Done_send ''a'', Done_delete ''a'']
     (start_moves empty_bucket) \<and>
   counted (Run_moves 1
     [Whole (CallAdd ''a''), Whole (CallAdd ''b''), Whole Tick, Done_send ''a'']
     (start_moves empty_bucket)) = {''b''} \<and>
   activeHashes (pkg (Run_moves 1
     [Whole (CallAdd ''a''), Whole (CallAdd ''b''), Whole Tick, Done_send ''a'', Done_delete ''a'']
     (start_moves empty_bucket))) = {''b''} \<and>
   numActive (pkg (Run_moves 1
     [Whole (CallAdd ''a''), Whole (CallAdd ''b''), Whole Tick, Done_send ''a'', Done_delete ''a'']
     (start_moves empty_bucket))) = 1 \<and>
   int (card (activeHashes (pkg (Run_moves 1
     [Whole (CallAdd ''a''), Whole (CallAdd ''b''), Whole Tick, Done_send ''a'', Done_delete ''a'']
     (start_moves empty_bucket))))) \<le> 1 \<and>
   numActive (recv_cDone (pkg (Run_moves 1
     [Whole (CallAdd ''a''), Whole (CallAdd ''b''), Whole Tick, Done_send ''a'', Done_delete ''a'']
     (start_moves empty_bucket)))) = 0"
  using counted_bounded_without_force [of
      "[Whole (CallAdd ''a''), Whole (CallAdd ''b''), Whole Tick, Done_send ''a'', Done_delete ''a'']"
      1 empty_bucket "start empty_bucket" "''b''"]
  by (simp add: moves_eval insert_commute insert_Diff_if)

subsection \<open>C2\<close>




subsection \<open>C3\<close>

text \<open>
  Claim C3 says that the tick which reloads a record with status \<open>STOPPED\<close> ends the
  loop of \<open>startTorrent\<close>. It does not: no branch of the loop body tests for
  \<open>STOPPED\<close>, the record is saved as it is and the loop goes on to its next
  \<open>select\<close>.
\<close>

theorem stopped_tick_continues:
  "snd (tick 1 1 ''a'' (Some ex_torrent) (ex_worker, ex_system StatusStopped)) = Continue \<and>
   snd (startTorrent_loop 1 1 ''a'' [ticker (Some ex_torrent)] (ex_worker, ex_system StatusStopped))
     = False"
  by (simp add: worker_eval Let_def)

text \<open>
  Claim C3, amended. A tick that reloads a record with status \<open>STOPPED\<close> leaves the
  record as it is, saves it again, does not call \<open>Done\<close> and does not end the loop.
  The loop ends when its \<open>select\<close> receives a value on \<open>closeSignal\<close>, the channel
  that \<open>stopTorrent\<close> writes to, whatever the status is.
\<close>

theorem stopped_tick_keeps_record:
  assumes "Torrents sys hash = Some latest" and "Status latest = StatusStopped"
  shows "tick globalRatio maxActive hash (Some t) (w, sys) =
           ((\<lparr>info = latest, progress = Update t (progress w)\<rparr>,
             sys\<lparr>Torrents := (Torrents sys)(Hash latest \<mapsto> latest)\<rparr>), Continue) \<and>
         snd (startTorrent_loop globalRatio maxActive hash (ticker (Some t) # closeSignal # sigs) (w, sys))
           = True \<and>
         snd (startTorrent_loop globalRatio maxActive hash (closeSignal # sigs) (w, sys)) = True"
  using assms by (simp add: tick_def Let_def)

theorem stopped_tick_keeps_record_witness:
  "Torrents (ex_system StatusStopped) ''a'' = Some (ex_info StatusStopped) \<and>
   Status (ex_info StatusStopped) = StatusStopped \<and>
   snd (tick 1 1 ''a'' (Some ex_torrent) (ex_worker, ex_system StatusStopped)) = Continue \<and>
   Torrents (snd (fst (tick 1 1 ''a'' (Some ex_torrent) (ex_worker, ex_system StatusStopped)))) ''a''
     = Some (ex_info StatusStopped) \<and>
   snd (startTorrent_loop 1 1 ''a'' [ticker (Some ex_torrent), closeSignal] (ex_worker, ex_system StatusStopped))
     = True"
  using stopped_tick_keeps_record [of "ex_system StatusStopped" "''a''" "ex_info StatusStopped"
      1 1 ex_torrent ex_worker "[]"]
  by (simp add: ex_system_def ex_info_def)

subsection \<open>C4\<close>

text \<open>
  Claim C4. Without \<open>ForceNext\<close> the hashes come out of \<open>Next\<close> in the order of their
  \<open>Add\<close>. A process starts on the bucket left in the store (empty at first), whose keys
  come from the sequence number. Then the keys in the bucket always ascend strictly; when
  \<open>Remove\<close> is not called either, the hashes handed over are a prefix of the hashes found
  in the bucket followed by the added ones, and the hashes still queued are the rest, in the
  same order; with calls of \<open>Remove\<close>, which take hashes out, the hashes handed over and
  then those still queued are a subsequence of that list. The sequence number is an
  unsigned 64-bit word; the statement is for sequences of events that do not make it wrap
  around.
\<close>

theorem fifo_without_force:
  assumes "bucket_ok b" and "unat (sequence b) + length es < 2 ^ 64"
    and "\<forall>e \<in> set es. \<not> is_force e"
  shows "((\<forall>e \<in> set es. \<not> is_remove e) \<longrightarrow>
            map snd (cNext_sent (Run maxActive es (start b)))
              = take (length (cNext_sent (Run maxActive es (start b))))
                  (map snd (entries b) @ added es) \<and>
            queued_hashes (Run maxActive es (start b))
              = drop (length (cNext_sent (Run maxActive es (start b))))
                  (map snd (entries b) @ added es)) \<and>
         subseq (map snd (cNext_sent (Run maxActive es (start b)))
                   @ queued_hashes (Run maxActive es (start b)))
                (map snd (entries b) @ added es) \<and>
         sorted_wrt (<) (map fst (entries (Queued (Run maxActive es (start b)))))"
proof -
  let ?q = "Run maxActive es (start b)"
  have h0: "history (start b) = map snd (entries b)"
    by (simp add: history_def start_def queued_hashes_def)
  have nowrap: "unat (sequence (Queued (start b))) + length es < 2 ^ 64"
    using assms(2) by (simp add: start_def)
  have ok0: "keys_ok (start b)"
    using assms(1) by (simp add: keys_ok_def start_def)
  from order_Run [OF ok0 nowrap assms(3), of maxActive]
  have ok: "keys_ok ?q"
    and sub: "subseq (map snd (cNext_sent ?q) @ queued_hashes ?q) (map snd (entries b) @ added es)"
    by (simp_all add: h0) (simp add: history_def)
  have eq: "map snd (cNext_sent ?q) = take (length (cNext_sent ?q)) (map snd (entries b) @ added es) \<and>
            queued_hashes ?q = drop (length (cNext_sent ?q)) (map snd (entries b) @ added es)"
    if nr: "\<forall>e \<in> set es. \<not> is_remove e"
  proof -
    have "\<forall>e \<in> set es. \<not> is_force e \<and> \<not> is_remove e" using assms(3) nr by simp
    from fifo_Run [OF ok0 nowrap this, of maxActive]
    have "map snd (cNext_sent ?q) @ queued_hashes ?q = map snd (entries b) @ added es"
      by (simp add: h0) (simp add: history_def)
    then show ?thesis by (metis append_eq_conv_conj length_map)
  qed
  have "sorted_wrt (<) (map fst (entries (Queued ?q)))"
    using ok by (simp add: keys_ok_iff)
  with eq sub show ?thesis by blast
qed

theorem fifo_without_force_witness:
  "bucket_ok empty_bucket \<and>
   unat (sequence empty_bucket)
     + length [CallAdd ''a'', CallAdd ''b'', Tick, CallAdd ''c'', CallDone ''a'', Tick] < 2 ^ 64 \<and>
   added [CallAdd ''a'', CallAdd ''b'', Tick, CallAdd ''c'', CallDone ''a'', Tick] = [''a'', ''b'', ''c''] \<and>
   cNext_sent (Run 1 [CallAdd ''a'', CallAdd ''b'', Tick, CallAdd ''c'', CallDone ''a'', Tick] (start empty_bucket))
     = [(Polled, ''a''), (Polled, ''b'')] \<and>
   queued_hashes (Run 1 [CallAdd ''a'', CallAdd ''b'', Tick, CallAdd ''c'', CallDone ''a'', Tick] (start empty_bucket))
     = [''c''] \<and>
   map snd (cNext_sent (Run 1 [CallAdd ''a'', CallAdd ''b'', Tick, CallAdd ''c'', CallDone ''a'', Tick] (start empty_bucket)))
     = take 2 [''a'', ''b'', ''c'']"
  using fifo_without_force [of empty_bucket "[CallAdd ''a'', CallAdd ''b'', Tick, CallAdd ''c'', CallDone ''a'', Tick]" 1]
  by (simp add: queue_eval bucket_ok_def)

subsection \<open>C5\<close>



subsection \<open>C6\<close>

text \<open>
  Claim C6: with the global ratio \<open>-1\<close> a torrent with status \<open>SEEDING\<close> never goes
  back to \<open>DONE\<close>. The loop body does the opposite: the test
  \<open>progress.Ratio >= globalRatio\<close> has no case for \<open>-1\<close>, unlike the test before
  the change to \<open>SEEDING\<close>, and every ratio is at least \<open>-1\<close>. With the global ratio
  \<open>-1\<close> and a client whose byte counts are not negative, every tick that reloads a
  record with status \<open>SEEDING\<close> sets the status to \<open>DONE\<close> and ends the loop.
\<close>

theorem seeding_unlimited_becomes_done:
  assumes "0 \<le> sint (BytesWritten t)" and "0 \<le> sint (t_BytesCompleted t)"
    and "Torrents sys hash = Some latest" and "Status latest = StatusSeeding"
  shows "Status (info (fst (fst (tick (- 1) maxActive hash (Some t) (w, sys))))) = StatusDone \<and>
         snd (tick (- 1) maxActive hash (Some t) (w, sys)) = Break"
proof -
  have "0 \<le> Ratio (Update t (progress w))" using assms(1,2) by (rule Ratio_nonneg)
  then have "- 1 \<le> Ratio (Update t (progress w))" by simp
  then show ?thesis using assms(3,4)
    by (simp add: tick_def Let_def del: Update_fields(3))
qed

text \<open>
  With the sample data: 50 bytes uploaded of 100 completed, ratio 1/2.
\<close>

theorem seeding_unlimited_becomes_done_witness:
  "0 \<le> sint (BytesWritten ex_torrent) \<and> 0 \<le> sint (t_BytesCompleted ex_torrent) \<and>
   Torrents (ex_system StatusSeeding) ''a'' = Some (ex_info StatusSeeding) \<and>
   Status (ex_info StatusSeeding) = StatusSeeding \<and>
   Ratio (Update ex_torrent (progress ex_worker)) = 1 / 2 \<and>
   Status (info (fst (fst (tick (- 1) 1 ''a'' (Some ex_torrent) (ex_worker, ex_system StatusSeeding)))))
     = StatusDone \<and>
   snd (tick (- 1) 1 ''a'' (Some ex_torrent) (ex_worker, ex_system StatusSeeding)) = Break"
  using seeding_unlimited_becomes_done [of ex_torrent "ex_system StatusSeeding" "''a''"
      "ex_info StatusSeeding" 1 ex_worker]
  by (simp add: ex_system_def ex_info_def ex_torrent_def ex_worker_def)

subsection \<open>C7\<close>

text \<open>
  Claim C7. With the global ratio 0 and a client whose byte counts are not negative, the
  ratio computed by \<open>Update\<close> is not negative, so the status after a tick is never
  \<open>SEEDING\<close>; a torrent that is or becomes \<open>DONE\<close> in a tick stays \<open>DONE\<close> and
  the loop ends.
\<close>

theorem no_seeding_with_ratio_zero:
  assumes "0 \<le> sint (BytesWritten t)" and "0 \<le> sint (t_BytesCompleted t)"
    and "Torrents sys hash = Some latest"
  shows "0 \<le> Ratio (Update t (progress w)) \<and>
         Status (info (fst (fst (tick 0 maxActive hash (Some t) (w, sys))))) \<noteq> StatusSeeding \<and>
         (Status latest = StatusDone \<or>
          ((Status latest = StatusQueued \<or> Status latest = StatusActive) \<and>
           sint (TotalBytes latest) \<le> sint (t_BytesCompleted t)) \<longrightarrow>
            Status (info (fst (fst (tick 0 maxActive hash (Some t) (w, sys))))) = StatusDone \<and>
            snd (tick 0 maxActive hash (Some t) (w, sys)) = Break)"
proof -
  have r: "0 \<le> Ratio (Update t (progress w))" using assms(1,2) by (rule Ratio_nonneg)
  then have n: "\<not> Ratio (Update t (progress w)) < 0" by simp
  show ?thesis using r assms(3)
    by (cases "Status latest") (simp_all add: tick_def Let_def n del: Update_fields(3))
qed

theorem no_seeding_with_ratio_zero_witness:
  "0 \<le> sint (BytesWritten ex_torrent) \<and> 0 \<le> sint (t_BytesCompleted ex_torrent) \<and>
   Torrents (ex_system StatusActive) ''a'' = Some (ex_info StatusActive) \<and>
   sint (TotalBytes (ex_info StatusActive)) \<le> sint (t_BytesCompleted ex_torrent) \<and>
   Ratio (Update ex_torrent (progress ex_worker)) = 1 / 2 \<and>
   Status (info (fst (fst (tick 0 1 ''a'' (Some ex_torrent) (ex_worker, ex_system StatusActive)))))
     = StatusDone"
  using no_seeding_with_ratio_zero [of ex_torrent "ex_system StatusActive" "''a''"
      "ex_info StatusActive" ex_worker 1]
  by (simp add: ex_system_def ex_info_def ex_torrent_def ex_worker_def)

subsection \<open>C8\<close>

text \<open>
  Claim C8 says that a hash is in at most one entry of the bucket, also when \<open>Add\<close> is
  called twice with the same hash. \<open>Add\<close> does not look for the hash: two calls make two
  entries.
\<close>

theorem add_twice_queues_twice:
  "queued_hashes (Run 1 [CallAdd ''a'', CallAdd ''a''] (start empty_bucket)) = [''a'', ''a''] \<and>
   \<not> distinct (queued_hashes (Run 1 [CallAdd ''a'', CallAdd ''a''] (start empty_bucket)))"
  by (simp add: queue_eval)

text \<open>
  Claim C8, amended. If the entries found at the start hold different hashes and every
  \<open>Add\<close> is called with a hash that is not in the bucket at that moment, then after
  every sequence of operations each hash is in at most one entry of the bucket.
\<close>

theorem queued_once_when_adds_fresh:
  assumes "distinct (map snd (entries b))" and "adds_fresh maxActive es (start b)"
  shows "distinct (queued_hashes (Run maxActive es (start b)))"
proof -
  have "distinct (queued_hashes (start b))"
    using assms(1) by (simp add: queued_hashes_def start_def)
  then show ?thesis using assms(2) by (rule distinct_Run)
qed

theorem queued_once_when_adds_fresh_witness:
  "distinct (map snd (entries empty_bucket)) \<and>
   adds_fresh 1 [CallAdd ''a'', CallAdd ''b'', Tick, CallAdd ''a''] (start empty_bucket) \<and>
   queued_hashes (Run 1 [CallAdd ''a'', CallAdd ''b'', Tick, CallAdd ''a''] (start empty_bucket))
     = [''b'', ''a''] \<and>
   distinct (queued_hashes (Run 1 [CallAdd ''a'', CallAdd ''b'', Tick, CallAdd ''a''] (start empty_bucket)))"
  using queued_once_when_adds_fresh [of empty_bucket 1 "[CallAdd ''a'', CallAdd ''b'', Tick, CallAdd ''a'']"]
  by (simp add: queue_eval)

subsection \<open>C9\<close>

text \<open>
  Claim C9. The branch of \<open>Run\<close> for a \<open>ForceNext\<close> signal calls \<open>Remove\<close> before
  it hands the hash over: after \<open>Remove\<close> no entry of the bucket holds the hash (and, the
  keys of a bucket being distinct, the other entries are all kept), and the hash is handed
  over as a forced one. From then on, as long as the hash is not added again, no pop from
  the bucket hands it over.
\<close>

theorem force_removes_queued:
  assumes "CallAdd hash \<notin> set es"
  shows "hash \<notin> set (queued_hashes (Remove hash q)) \<and>
         (distinct (map fst (entries (Queued q))) \<longrightarrow>
            queued_hashes (Remove hash q) = filter (\<lambda>v. v \<noteq> hash) (queued_hashes q)) \<and>
         cNext_sent (recv_cForce hash q) = cNext_sent q @ [(Forced, hash)] \<and>
         hash \<notin> set (queued_hashes (recv_cForce hash q)) \<and>
         (Polled, hash) \<notin> set (drop (length (cNext_sent q))
            (cNext_sent (Run maxActive (CallForceNext hash # es) q)))"
proof -
  have 1: "hash \<notin> set (queued_hashes (Remove hash q))" by (rule Remove_gone)
  have 2: "cNext_sent (recv_cForce hash q) = cNext_sent q @ [(Forced, hash)]"
    by (simp add: recv_cForce_def Next_def)
  have g: "hash \<notin> set (queued_hashes (recv_cForce hash q))"
    using Remove_gone [of hash "q\<lparr>numActive := numActive q + 1\<rparr>"]
    by (simp add: recv_cForce_def queued_hashes_def)
  have "hash \<notin> set (queued_hashes (step maxActive (CallForceNext hash) q))"
    using g queued_admit [of maxActive "recv_cForce hash q"] by auto
  from polled_Run [OF this assms, of maxActive] obtain ys where
    ys: "cNext_sent (Run maxActive (CallForceNext hash # es) q)
           = cNext_sent (step maxActive (CallForceNext hash) q) @ ys"
      "(Polled, hash) \<notin> set ys" by auto
  from polled_admit [OF g, of maxActive] obtain zs where
    zs: "cNext_sent (step maxActive (CallForceNext hash) q) = cNext_sent (recv_cForce hash q) @ zs"
      "(Polled, hash) \<notin> set zs" by auto
  have "cNext_sent (Run maxActive (CallForceNext hash # es) q)
          = cNext_sent q @ ((Forced, hash) # zs @ ys)"
    using ys zs by (simp add: recv_cForce_def Next_def)
  then have "(Polled, hash) \<notin> set (drop (length (cNext_sent q))
           (cNext_sent (Run maxActive (CallForceNext hash # es) q)))"
    using ys zs by simp
  with 1 2 g Remove_queued [of q hash] show ?thesis by simp
qed

theorem force_removes_queued_witness:
  "CallAdd ''b'' \<notin> set [CallDone ''a'', Tick] \<and>
   queued_hashes (Run 1 [CallAdd ''a'', CallAdd ''b'', CallAdd ''c'', Tick] (start empty_bucket))
     = [''b'', ''c''] \<and>
   queued_hashes (recv_cForce ''b'' (Run 1 [CallAdd ''a'', CallAdd ''b'', CallAdd ''c'', Tick] (start empty_bucket)))
     = [''c''] \<and>
   cNext_sent (Run 1 [CallForceNext ''b'', CallDone ''a'', Tick]
       (Run 1 [CallAdd ''a'', CallAdd ''b'', CallAdd ''c'', Tick] (start empty_bucket)))
     = [(Polled, ''a''), (Forced, ''b'')] \<and>
   cNext_sent (Run 1 [CallForceNext ''b'', CallDone ''a'', CallDone ''b'', Tick]
       (Run 1 [CallAdd ''a'', CallAdd ''b'', CallAdd ''c'', Tick] (start empty_bucket)))
     = [(Polled, ''a''), (Forced, ''b''), (Polled, ''c'')]"
  using force_removes_queued [of "''b''" "[CallDone ''a'', Tick]"
      "Run 1 [CallAdd ''a'', CallAdd ''b'', CallAdd ''c'', Tick] (start empty_bucket)" 1]
  by (simp add: queue_eval)

subsection \<open>C10\<close>



end
